theory Spec2Isabelle
  imports Main "HOL-Library.Word"
begin

section \<open>The thunk pool of \<open>thunk_lambda.hpp\<close>\<close>

text \<open>
  The header turns a capturing closure into a plain function pointer.  Every instantiation
  \<open>thunk<LambdaType, N>\<close> owns a static table \<open>data[N]\<close> of closure addresses, guarded by a
  static mutex, and \<open>N\<close> static functions \<open>invoke<I>\<close> that call through \<open>data[I]\<close>.

  The embedding below keeps the source's names.  \<open>std::size_t\<close> is a 64-bit word, a pointer to
  a closure is an address (\<open>nullptr\<close> is \<open>None\<close>), the table is a list, and everything that
  ends the process or leaves the language's defined behaviour is a value of \<open>failure\<close>.
\<close>

subsection \<open>Values\<close>

type_synonym size_t = "64 word"

type_synonym addr = nat

type_synonym table = "addr option list"

datatype failure =
    AssertionFailure string
  | Abort
  | Terminate
  | UndefinedBehaviour

text \<open>The outcome of constructing \<open>std::lock_guard lck(mut)\<close>, which "might throw
  std::system_error".\<close>

datatype lock_result = Locked | SystemError

text \<open>\<open>assert(nullptr == "msg"); std::abort();\<close>: the assertion fails in a debug build, and
  the call of \<open>abort\<close> is reached when \<open>NDEBUG\<close> is defined.\<close>

definition assert_abort :: "bool \<Rightarrow> string \<Rightarrow> failure" where
  "assert_abort ndebug msg = (if ndebug then Abort else AssertionFailure msg)"

text \<open>The failures that end the process.  Undefined behaviour is not among them: nothing is
  known about what happens then.\<close>

fun process_terminated :: "failure \<Rightarrow> bool" where
  "process_terminated (AssertionFailure msg) = True"
| "process_terminated Abort = True"
| "process_terminated Terminate = True"
| "process_terminated UndefinedBehaviour = False"

text \<open>Array access \<open>data[i]\<close>: reading or writing outside the array is undefined behaviour.\<close>

definition load :: "table \<Rightarrow> size_t \<Rightarrow> failure + addr option" where
  "load data i =
     (if unat i < length data then Inr (data ! unat i) else Inl UndefinedBehaviour)"

definition store :: "table \<Rightarrow> size_t \<Rightarrow> addr option \<Rightarrow> failure + table" where
  "store data i p =
     (if unat i < length data then Inr (data[unat i := p]) else Inl UndefinedBehaviour)"

text \<open>\<open>inline static LambdaType *data[N] = {};\<close> starts off all \<open>nullptr\<close>.\<close>

definition data_init :: "size_t \<Rightarrow> table" where
  "data_init N = replicate (unat N) None"

subsection \<open>\<open>acquire\<close> and \<open>release\<close>\<close>

text \<open>
  The loop \<open>for (size_t i = 0; i != N; ++i) if (nullptr == data[i]) return data[i] = &arg, i;\<close>.
  The result is \<open>None\<close> when the loop ends without returning.
\<close>

function acquire_loop ::
  "size_t \<Rightarrow> table \<Rightarrow> addr \<Rightarrow> size_t \<Rightarrow> (failure + size_t \<times> table) option" where
  "acquire_loop N data arg i =
     (if i \<noteq> N then
        (case load data i of
           Inl f \<Rightarrow> Some (Inl f)
         | Inr p \<Rightarrow>
             if p = None then
               (case store data i (Some arg) of
                  Inl f \<Rightarrow> Some (Inl f)
                | Inr data' \<Rightarrow> Some (Inr (i, data')))
             else acquire_loop N data arg (i + 1))
      else None)"
  by pat_completeness auto
termination
proof (relation "measure (\<lambda>(N, data, arg, i). unat (N - i))")
  show "wf (measure (\<lambda>(N :: size_t, data :: table, arg :: addr, i :: size_t). unat (N - i)))"
    by simp
next
  fix N i :: size_t and data :: table and arg :: addr and p :: "addr option"
  assume "i \<noteq> N"
  then have nz: "N - i \<noteq> 0" by simp
  have eq: "N - (i + 1) = N - i - 1" by simp
  have "unat (N - (i + 1)) < unat (N - i)"
    unfolding eq using nz by (rule measure_unat)
  then show "((N, data, arg, i + 1), (N, data, arg, i))
      \<in> measure (\<lambda>(N, data, arg, i). unat (N - i))"
    by simp
qed

declare acquire_loop.simps [simp del]

definition acquire ::
  "bool \<Rightarrow> lock_result \<Rightarrow> size_t \<Rightarrow> table \<Rightarrow> addr \<Rightarrow> failure + size_t \<times> table" where
  "acquire ndebug lck N data arg =
     (case lck of
        SystemError \<Rightarrow> Inl (assert_abort ndebug ''failed to lock mutex'')
      | Locked \<Rightarrow>
          (case acquire_loop N data arg 0 of
             Some r \<Rightarrow> r
           | None \<Rightarrow> Inl (assert_abort ndebug ''thunk pool exhausted'')))"

definition release :: "bool \<Rightarrow> lock_result \<Rightarrow> table \<Rightarrow> size_t \<Rightarrow> failure + table" where
  "release ndebug lck data i =
     (case lck of
        SystemError \<Rightarrow> Inl (assert_abort ndebug ''failed to lock mutex'')
      | Locked \<Rightarrow> store data i None)"

subsection \<open>The helpers of namespace \<open>detail\<close>\<close>

text \<open>
  The three helper templates work on the type of \<open>&LambdaType::operator()\<close>, a pointer to a
  member function \<open>ReturnType (ClassType::*)(Params...) [const] noexcept(b_noexcept)\<close>.  Types
  are written by their names.
\<close>

type_synonym cpp_type = string

record member_fn_ptr =
  ReturnType :: cpp_type
  ClassType :: cpp_type
  Params :: "cpp_type list"
  is_const :: bool
  b_noexcept :: bool

text \<open>A plain function pointer type \<open>ReturnType (*)(Params...) noexcept(b)\<close>: the parameter
  types, the return type and the no-throw qualifier.\<close>

record func_ptr_type =
  fp_ReturnType :: cpp_type
  fp_Params :: "cpp_type list"
  fp_noexcept :: bool

text \<open>Each helper has one overload for const and one for non-const member functions.\<close>

definition ToFuncPtr :: "member_fn_ptr \<Rightarrow> func_ptr_type" where
  "ToFuncPtr m =
     (if is_const m
      then \<lparr>fp_ReturnType = ReturnType m, fp_Params = Params m, fp_noexcept = b_noexcept m\<rparr>
      else \<lparr>fp_ReturnType = ReturnType m, fp_Params = Params m, fp_noexcept = b_noexcept m\<rparr>)"

definition ToReturnType :: "member_fn_ptr \<Rightarrow> cpp_type" where
  "ToReturnType m = (if is_const m then ReturnType m else ReturnType m)"

definition IsNoExcept :: "member_fn_ptr \<Rightarrow> bool" where
  "IsNoExcept m = (if is_const m then b_noexcept m else b_noexcept m)"

subsection \<open>Closures and calls\<close>

text \<open>
  A closure type \<open>LambdaType\<close> is given by the type of its call operator and by what the
  operator computes: from the captured state and the arguments, either a thrown exception or a
  returned value, and the captured state after the call (a \<open>mutable\<close> lambda changes it).
  Closure objects live in the scopes of the caller, at their addresses.
\<close>

record ('c, 'a, 'e, 'r) LambdaType =
  call_operator :: member_fn_ptr
  body :: "'c \<Rightarrow> 'a \<Rightarrow> ('e + 'r) \<times> 'c"

datatype ('e, 'r) outcome = Returned 'r | Thrown 'e | Failed failure

type_synonym 'c objects = "addr \<Rightarrow> 'c option"

text \<open>An exception that leaves a function declared \<open>noexcept(true)\<close> calls
  \<open>std::terminate\<close>.\<close>

definition noexcept_fn :: "bool \<Rightarrow> ('e, 'r) outcome \<Rightarrow> ('e, 'r) outcome" where
  "noexcept_fn b out =
     (case out of
        Thrown e \<Rightarrow> if b then Failed Terminate else Thrown e
      | Returned r \<Rightarrow> Returned r
      | Failed f \<Rightarrow> Failed f)"

text \<open>The direct call \<open>(*p)(a...)\<close> of the closure object at address \<open>p\<close>.\<close>

definition call_closure ::
  "('c, 'a, 'e, 'r) LambdaType \<Rightarrow> 'c objects \<Rightarrow> addr \<Rightarrow> 'a \<Rightarrow> ('e, 'r) outcome \<times> 'c objects" where
  "call_closure L objs p a =
     (case objs p of
        None \<Rightarrow> (Failed UndefinedBehaviour, objs)
      | Some c \<Rightarrow>
          (case body L c a of
             (Inl e, c') \<Rightarrow> (noexcept_fn (b_noexcept (call_operator L)) (Thrown e), objs(p \<mapsto> c'))
           | (Inr r, c') \<Rightarrow> (Returned r, objs(p \<mapsto> c'))))"

subsection \<open>The class \<open>thunk\<close>\<close>

text \<open>The only data member is \<open>size_t const index\<close>.\<close>

record thunk =
  index :: size_t

text \<open>\<open>using FuncPtr = decltype(detail::ToFuncPtr(&LambdaType::operator()))\<close>.\<close>

definition FuncPtr :: "('c, 'a, 'e, 'r) LambdaType \<Rightarrow> func_ptr_type" where
  "FuncPtr L = ToFuncPtr (call_operator L)"

text \<open>The constructor: \<open>index(acquire(arg))\<close>, then \<open>data[index] = &arg\<close>.\<close>

definition thunk_ctor ::
  "bool \<Rightarrow> lock_result \<Rightarrow> size_t \<Rightarrow> table \<Rightarrow> addr \<Rightarrow> failure + thunk \<times> table" where
  "thunk_ctor ndebug lck N data arg =
     (case acquire ndebug lck N data arg of
        Inl f \<Rightarrow> Inl f
      | Inr (i, data') \<Rightarrow>
          (case store data' i (Some arg) of
             Inl f \<Rightarrow> Inl f
           | Inr data'' \<Rightarrow> Inr (\<lparr>index = i\<rparr>, data'')))"

text \<open>The destructor: \<open>release(index)\<close>.\<close>

definition thunk_dtor :: "bool \<Rightarrow> lock_result \<Rightarrow> table \<Rightarrow> thunk \<Rightarrow> failure + table" where
  "thunk_dtor ndebug lck data t = release ndebug lck data (index t)"

text \<open>
  The static member function \<open>invoke<I>\<close>, declared
  \<open>noexcept(detail::IsNoExcept(&LambdaType::operator()))\<close>: the assertion
  \<open>nullptr != data[I]\<close>, then the call \<open>(*data[I])(a...)\<close>.  With \<open>NDEBUG\<close> the assertion is
  gone and a null pointer is dereferenced.
\<close>

definition invoke_noexcept :: "('c, 'a, 'e, 'r) LambdaType \<Rightarrow> bool" where
  "invoke_noexcept L = IsNoExcept (call_operator L)"

definition invoke ::
  "bool \<Rightarrow> ('c, 'a, 'e, 'r) LambdaType \<Rightarrow> table \<Rightarrow> 'c objects \<Rightarrow> size_t \<Rightarrow> 'a
     \<Rightarrow> ('e, 'r) outcome \<times> 'c objects" where
  "invoke ndebug L data objs I a =
     (case load data I of
        Inl f \<Rightarrow> (Failed f, objs)
      | Inr None \<Rightarrow>
          (if ndebug then (Failed UndefinedBehaviour, objs)
           else (Failed (AssertionFailure ''nullptr != data[I]''), objs))
      | Inr (Some p) \<Rightarrow>
          (case call_closure L objs p a of
             (out, objs') \<Rightarrow> (noexcept_fn (invoke_noexcept L) out, objs')))"

text \<open>A value of type \<open>FuncPtr\<close> is the address of one of the functions \<open>invoke<I>\<close>; calling
  through it calls that function.\<close>

datatype func_ptr = invoke_addr size_t

fun call_func_ptr ::
  "bool \<Rightarrow> ('c, 'a, 'e, 'r) LambdaType \<Rightarrow> table \<Rightarrow> 'c objects \<Rightarrow> func_ptr \<Rightarrow> 'a
     \<Rightarrow> ('e, 'r) outcome \<times> 'c objects" where
  "call_func_ptr ndebug L data objs (invoke_addr I) a = invoke ndebug L data objs I a"

text \<open>
  \<open>get\<close>: the local \<open>FuncPtr ret\<close> starts uninitialised (\<open>None\<close>), and the fold expression
  \<open>((I == index ? ret = &invoke<I> : ret), ...)\<close> runs over \<open>std::make_index_sequence<N>\<close>, that
  is over \<open>0, 1, ..., N - 1\<close>, from left to right.
\<close>

definition make_index_sequence :: "size_t \<Rightarrow> size_t list" where
  "make_index_sequence N = map of_nat [0..<unat N]"

definition get_step :: "thunk \<Rightarrow> size_t \<Rightarrow> func_ptr option \<Rightarrow> func_ptr option" where
  "get_step t I ret = (if I = index t then Some (invoke_addr I) else ret)"

definition get :: "size_t \<Rightarrow> thunk \<Rightarrow> func_ptr option" where
  "get N t = fold (get_step t) (make_index_sequence N) None"

subsection \<open>Handles over time\<close>

text \<open>
  One pool together with the handles that are alive.  A handle is not copyable and not movable
  (the copy and move operations are deleted), so it is constructed once, by the constructor,
  and destroyed once, by the destructor.  Beside each live handle the state remembers the
  address of the closure it was constructed from.  A step that ends the process has no
  successor state.
\<close>

record pool_state =
  tbl :: table
  handles :: "(thunk \<times> addr) list"

inductive reachable :: "bool \<Rightarrow> size_t \<Rightarrow> pool_state \<Rightarrow> bool"
  for ndebug :: bool and N :: size_t where
  start: "reachable ndebug N \<lparr>tbl = data_init N, handles = []\<rparr>"
| construct:
    "reachable ndebug N s \<Longrightarrow> thunk_ctor ndebug lck N (tbl s) arg = Inr (t, d) \<Longrightarrow>
     reachable ndebug N \<lparr>tbl = d, handles = (t, arg) # handles s\<rparr>"
| destroy:
    "reachable ndebug N s \<Longrightarrow> (t, arg) \<in> set (handles s) \<Longrightarrow>
     thunk_dtor ndebug lck (tbl s) t = Inr d \<Longrightarrow>
     reachable ndebug N \<lparr>tbl = d, handles = remove1 (t, arg) (handles s)\<rparr>"

subsection \<open>One pool for each instantiation\<close>

text \<open>
  \<open>data\<close> and \<open>mut\<close> are static members of the class template
  \<open>template<typename LambdaType, std::size_t N> class thunk\<close>: there is one table for each
  pair of a closure type and a capacity.
\<close>

type_synonym pools = "cpp_type \<times> size_t \<Rightarrow> table"

definition pools_init :: pools where
  "pools_init = (\<lambda>(T, N). data_init N)"

definition pool_of :: "('c, 'a, 'e, 'r) LambdaType \<Rightarrow> size_t \<Rightarrow> cpp_type \<times> size_t" where
  "pool_of L N = (ClassType (call_operator L), N)"

definition wrap ::
  "bool \<Rightarrow> lock_result \<Rightarrow> size_t \<Rightarrow> ('c, 'a, 'e, 'r) LambdaType \<Rightarrow> pools \<Rightarrow> addr
     \<Rightarrow> failure + thunk \<times> pools" where
  "wrap ndebug lck N L ps arg =
     (case thunk_ctor ndebug lck N (ps (pool_of L N)) arg of
        Inl f \<Rightarrow> Inl f
      | Inr (t, d) \<Rightarrow> Inr (t, ps(pool_of L N := d)))"

definition unwrap ::
  "bool \<Rightarrow> lock_result \<Rightarrow> size_t \<Rightarrow> ('c, 'a, 'e, 'r) LambdaType \<Rightarrow> pools \<Rightarrow> thunk
     \<Rightarrow> failure + pools" where
  "unwrap ndebug lck N L ps t =
     (case thunk_dtor ndebug lck (ps (pool_of L N)) t of
        Inl f \<Rightarrow> Inl f
      | Inr d \<Rightarrow> Inr (ps(pool_of L N := d)))"

text \<open>Calling the pointer that \<open>get\<close> returned; calling through an uninitialised pointer is
  undefined behaviour.\<close>

definition call_pointer ::
  "bool \<Rightarrow> size_t \<Rightarrow> ('c, 'a, 'e, 'r) LambdaType \<Rightarrow> pools \<Rightarrow> 'c objects \<Rightarrow> func_ptr option \<Rightarrow> 'a
     \<Rightarrow> ('e, 'r) outcome \<times> 'c objects" where
  "call_pointer ndebug N L ps objs fp a =
     (case fp of
        None \<Rightarrow> (Failed UndefinedBehaviour, objs)
      | Some f \<Rightarrow> call_func_ptr ndebug L (ps (pool_of L N)) objs f a)"

subsection \<open>The scenario with capacity 2\<close>

text \<open>
  Wrap \<open>A\<close>, wrap \<open>B\<close>, call \<open>A\<close>'s pointer with 4, call \<open>B\<close>'s pointer with 4, destroy
  \<open>A\<close>'s handle, wrap \<open>C\<close>, call \<open>C\<close>'s pointer with 1, call \<open>B\<close>'s pointer with 4 again.
  Each closure is given by its type, its address and its captured state.
\<close>

record ('e, 'r) observation =
  slot_A :: size_t
  slot_B :: size_t
  same_pool_AB :: bool
  A_of_4 :: "('e, 'r) outcome"
  B_of_4 :: "('e, 'r) outcome"
  slot_C :: size_t
  same_pool_AC :: bool
  C_of_1 :: "('e, 'r) outcome"
  B_of_4_again :: "('e, 'r) outcome"

definition scenario ::
  "bool \<Rightarrow> ('c, int, 'e, 'r) LambdaType \<times> addr \<times> 'c \<Rightarrow> ('c, int, 'e, 'r) LambdaType \<times> addr \<times> 'c
     \<Rightarrow> ('c, int, 'e, 'r) LambdaType \<times> addr \<times> 'c \<Rightarrow> failure + ('e, 'r) observation" where
  "scenario ndebug A B C =
     (case (A, B, C) of ((LA, pA, a), (LB, pB, b), (LC, pC, c)) \<Rightarrow>
      let objs0 = [pA \<mapsto> a, pB \<mapsto> b, pC \<mapsto> c] in
      case wrap ndebug Locked 2 LA pools_init pA of Inl f \<Rightarrow> Inl f | Inr (tA, ps1) \<Rightarrow>
      case wrap ndebug Locked 2 LB ps1 pB of Inl f \<Rightarrow> Inl f | Inr (tB, ps2) \<Rightarrow>
      let fA = get 2 tA; fB = get 2 tB in
      case call_pointer ndebug 2 LA ps2 objs0 fA 4 of (rA, objs1) \<Rightarrow>
      case call_pointer ndebug 2 LB ps2 objs1 fB 4 of (rB, objs2) \<Rightarrow>
      case unwrap ndebug Locked 2 LA ps2 tA of Inl f \<Rightarrow> Inl f | Inr ps3 \<Rightarrow>
      case wrap ndebug Locked 2 LC ps3 pC of Inl f \<Rightarrow> Inl f | Inr (tC, ps4) \<Rightarrow>
      let fC = get 2 tC in
      case call_pointer ndebug 2 LC ps4 objs2 fC 1 of (rC, objs3) \<Rightarrow>
      case call_pointer ndebug 2 LB ps4 objs3 fB 4 of (rB', objs4) \<Rightarrow>
      Inr \<lparr>slot_A = index tA, slot_B = index tB,
           same_pool_AB = (pool_of LA 2 = pool_of LB 2),
           A_of_4 = rA, B_of_4 = rB,
           slot_C = index tC,
           same_pool_AC = (pool_of LA 2 = pool_of LC 2),
           C_of_1 = rC, B_of_4_again = rB'\<rparr>)"

text \<open>What the specification expects of the scenario: slots 0 and 1 of one pool, 7 and 6,
  slot 0 reused, 101, and 6 again.\<close>

definition scenario_expected :: "(unit, int) observation" where
  "scenario_expected =
     \<lparr>slot_A = 0, slot_B = 1, same_pool_AB = True,
      A_of_4 = Returned 7, B_of_4 = Returned 6,
      slot_C = 0, same_pool_AC = True,
      C_of_1 = Returned 101, B_of_4_again = Returned 6\<rparr>"

text \<open>
  Three lambda expressions \<open>[v](int x) { return v + x; }\<close>, \<open>[v](int x) { return v - x; }\<close>
  and \<open>[v](int x) { return v + x; }\<close>: each lambda expression has a closure type of its own,
  and the three types have the same parameter types, return type and no-throw qualifier.
\<close>

definition lambda_type ::
  "cpp_type \<Rightarrow> (int \<Rightarrow> int \<Rightarrow> int) \<Rightarrow> (int, int, unit, int) LambdaType" where
  "lambda_type name f =
     \<lparr>call_operator =
        \<lparr>ReturnType = ''int'', ClassType = name, Params = [''int''],
         is_const = True, b_noexcept = False\<rparr>,
      body = (\<lambda>v x. (Inr (f v x), v))\<rparr>"

definition lambda_A :: "(int, int, unit, int) LambdaType" where
  "lambda_A = lambda_type ''lambda_A'' (\<lambda>v x. v + x)"

definition lambda_B :: "(int, int, unit, int) LambdaType" where
  "lambda_B = lambda_type ''lambda_B'' (\<lambda>v x. v - x)"

definition lambda_C :: "(int, int, unit, int) LambdaType" where
  "lambda_C = lambda_type ''lambda_C'' (\<lambda>v x. v + x)"

text \<open>
  One class type for all three closures, a \<open>struct Affine\<close> with the members
  \<open>int captured\<close> and \<open>int sign\<close> and the call operator
  \<open>int operator()(int x) const { return captured + sign * x; }\<close>:
  \<open>A\<close> is \<open>{3, 1}\<close>, \<open>B\<close> is \<open>{10, -1}\<close> and \<open>C\<close> is \<open>{100, 1}\<close>.
\<close>

definition Affine :: "(int \<times> int, int, unit, int) LambdaType" where
  "Affine =
     \<lparr>call_operator =
        \<lparr>ReturnType = ''int'', ClassType = ''Affine'', Params = [''int''],
         is_const = True, b_noexcept = False\<rparr>,
      body = (\<lambda>(captured, sign) x. (Inr (captured + sign * x), (captured, sign)))\<rparr>"

text \<open>
  A closure type whose call operator stores its argument and then throws,
  \<open>[v](int x) mutable noexcept(b) { v = x; throw "error"; }\<close>.
\<close>

definition throwing_lambda :: "bool \<Rightarrow> (int, int, string, int) LambdaType" where
  "throwing_lambda b =
     \<lparr>call_operator =
        \<lparr>ReturnType = ''int'', ClassType = ''throwing_lambda'', Params = [''int''],
         is_const = False, b_noexcept = b\<rparr>,
      body = (\<lambda>v x. (Inl ''error'', x))\<rparr>"

subsection \<open>The invariant of a pool\<close>

text \<open>
  The table has \<open>N\<close> entries, the live handles have pairwise different indices, and the entry
  at the index of a live handle holds the address of the closure the handle was made from.
\<close>

definition pool_inv :: "size_t \<Rightarrow> pool_state \<Rightarrow> bool" where
  "pool_inv N s \<longleftrightarrow>
     length (tbl s) = unat N
     \<and> distinct (map (\<lambda>h. index (fst h)) (handles s))
     \<and> (\<forall>h \<in> set (handles s). unat (index (fst h)) < unat N
            \<and> tbl s ! unat (index (fst h)) = Some (snd h))"

section \<open>Properties\<close>

subsection \<open>The scan of \<open>acquire\<close>\<close>

text \<open>
  Started at position \<open>k\<close>, the loop either runs to the end, and then no entry from \<open>k\<close> on
  is empty, or it returns the first empty position from \<open>k\<close> on, with the table updated there.
  It never leaves the array.
\<close>

lemma acquire_loop_scan:
  assumes len: "length data = unat N"
  shows "k \<le> unat N \<Longrightarrow>
    (case acquire_loop N data arg (of_nat k) of
       None \<Rightarrow> (\<forall>j. k \<le> j \<and> j < unat N \<longrightarrow> data ! j \<noteq> None)
     | Some (Inl f) \<Rightarrow> False
     | Some (Inr (i, d)) \<Rightarrow>
         k \<le> unat i \<and> unat i < unat N \<and> data ! unat i = None
         \<and> (\<forall>j. k \<le> j \<and> j < unat i \<longrightarrow> data ! j \<noteq> None)
         \<and> d = data[unat i := Some arg])"
proof (induction "unat N - k" arbitrary: k)
  case 0
  then have "k = unat N" by simp
  then have "(of_nat k :: size_t) = N" by simp
  then show ?case
    using \<open>k = unat N\<close> by (auto simp add: acquire_loop.simps)
next
  case (Suc n)
  then have lt: "k < unat N" by simp
  then have uk: "unat (of_nat k :: size_t) = k"
    by (simp add: le_unat_uoi [of k N])
  with lt have ne: "(of_nat k :: size_t) \<noteq> N" by auto
  have ld: "load data (of_nat k) = Inr (data ! k)"
    using lt uk len by (simp add: load_def)
  show ?case
  proof (cases "data ! k")
    case None
    have "store data (of_nat k) (Some arg) = Inr (data[k := Some arg])"
      using lt uk len by (simp add: store_def)
    then have "acquire_loop N data arg (of_nat k) = Some (Inr (of_nat k, data[k := Some arg]))"
      using ne ld None by (simp add: acquire_loop.simps)
    then show ?thesis using uk lt None by auto
  next
    case (Some q)
    have step: "acquire_loop N data arg (of_nat k) = acquire_loop N data arg (of_nat (Suc k))"
      using ne ld Some by (subst acquire_loop.simps) (simp add: add.commute)
    have "n = unat N - Suc k" using Suc.hyps(2) by simp
    moreover have "Suc k \<le> unat N" using lt by simp
    ultimately have IH: "(case acquire_loop N data arg (of_nat (Suc k)) of
       None \<Rightarrow> (\<forall>j. Suc k \<le> j \<and> j < unat N \<longrightarrow> data ! j \<noteq> None)
     | Some (Inl f) \<Rightarrow> False
     | Some (Inr (i, d)) \<Rightarrow>
         Suc k \<le> unat i \<and> unat i < unat N \<and> data ! unat i = None
         \<and> (\<forall>j. Suc k \<le> j \<and> j < unat i \<longrightarrow> data ! j \<noteq> None)
         \<and> d = data[unat i := Some arg])"
      by (rule Suc.hyps(1))
    have low: "\<And>j. k \<le> j \<Longrightarrow> data ! j = None \<Longrightarrow> Suc k \<le> j"
      using Some by (metis le_antisym not_less_eq_eq option.distinct(1))
    show ?thesis
      unfolding step using IH low
      by (auto split: option.splits sum.splits prod.splits)
  qed
qed


lemma acquire_loop_0:
  assumes len: "length data = unat N"
  shows "(case acquire_loop N data arg 0 of
       None \<Rightarrow> (\<forall>j < unat N. data ! j \<noteq> None)
     | Some (Inl f) \<Rightarrow> False
     | Some (Inr (i, d)) \<Rightarrow>
         unat i < unat N \<and> data ! unat i = None
         \<and> (\<forall>j < unat i. data ! j \<noteq> None)
         \<and> d = data[unat i := Some arg])"
  using acquire_loop_scan [OF len, of 0 arg]
  by (simp split: option.splits sum.splits prod.splits)

lemma acquire_Inr:
  assumes len: "length data = unat N"
    and acq: "acquire ndebug lck N data arg = Inr (i, d)"
  shows "lck = Locked \<and> unat i < unat N \<and> data ! unat i = None
         \<and> (\<forall>j < unat i. data ! j \<noteq> None) \<and> d = data[unat i := Some arg]"
  using acquire_loop_0 [OF len, of arg] acq
  by (auto simp: acquire_def split: lock_result.splits option.splits sum.splits)

lemma acquire_found:
  assumes len: "length data = unat N"
    and emp: "\<exists>j < unat N. data ! j = None"
  shows "\<exists>i. acquire ndebug Locked N data arg = Inr (i, data[unat i := Some arg])
           \<and> unat i < unat N \<and> data ! unat i = None \<and> (\<forall>j < unat i. data ! j \<noteq> None)"
  using acquire_loop_0 [OF len, of arg] emp
  by (auto simp: acquire_def split: option.splits sum.splits)

lemma acquire_loop_exhausted:
  assumes len: "length data = unat N"
    and full: "\<forall>j < unat N. data ! j \<noteq> None"
  shows "acquire_loop N data arg 0 = None"
  using acquire_loop_0 [OF len, of arg] full
  by (auto split: option.splits sum.splits)

subsection \<open>Constructor, destructor and \<open>get\<close>\<close>

lemma thunk_ctor_Inr:
  assumes len: "length data = unat N"
    and ctor: "thunk_ctor ndebug lck N data arg = Inr (t, d)"
  shows "lck = Locked \<and> unat (index t) < unat N \<and> data ! unat (index t) = None
         \<and> (\<forall>j < unat (index t). data ! j \<noteq> None)
         \<and> d = data[unat (index t) := Some arg]"
proof -
  from ctor obtain i d1 where acq: "acquire ndebug lck N data arg = Inr (i, d1)"
    and st: "store d1 i (Some arg) = Inr d" and t: "t = \<lparr>index = i\<rparr>"
    by (auto simp: thunk_ctor_def split: sum.splits)
  from acquire_Inr [OF len acq] st t show ?thesis
    by (auto simp: store_def split: if_splits)
qed

lemma thunk_dtor_Inr:
  assumes "thunk_dtor ndebug lck data t = Inr d"
  shows "lck = Locked \<and> unat (index t) < length data \<and> d = data[unat (index t) := None]"
  using assms
  by (auto simp: thunk_dtor_def release_def store_def assert_abort_def
      split: lock_result.splits if_splits)

lemma fold_get_step:
  "n \<le> unat (N :: size_t) \<Longrightarrow>
   fold (get_step t) (map of_nat [0..<n]) None =
     (if unat (index t) < n then Some (invoke_addr (index t)) else None)"
proof (induction n)
  case 0
  show ?case by simp
next
  case (Suc n)
  then have un: "unat (of_nat n :: size_t) = n"
    by (simp add: le_unat_uoi [of n N])
  have eq: "(of_nat n = index t) = (unat (index t) = n)"
    using un by auto
  from Suc show ?case
    by (auto simp: get_step_def eq)
qed

lemma get_in_range:
  "unat (index t) < unat N \<Longrightarrow> get N t = Some (invoke_addr (index t))"
  by (simp add: get_def make_index_sequence_def fold_get_step [of "unat N" N])

lemma get_out_of_range:
  "\<not> unat (index t) < unat N \<Longrightarrow> get N t = None"
  by (simp add: get_def make_index_sequence_def fold_get_step [of "unat N" N])

lemma count_index_sequence_upto:
  "n \<le> unat (N :: size_t) \<Longrightarrow>
   count_list (map of_nat [0..<n]) (w :: size_t) = (if unat w < n then 1 else 0)"
proof (induction n)
  case 0
  show ?case by simp
next
  case (Suc n)
  then have un: "unat (of_nat n :: size_t) = n"
    by (simp add: le_unat_uoi [of n N])
  have eq: "(of_nat n = w) = (unat w = n)"
    using un by auto
  from Suc show ?case
    by (auto simp: eq)
qed

lemma count_index_sequence:
  "count_list (make_index_sequence N) w = (if unat w < unat N then 1 else 0)"
  by (simp add: make_index_sequence_def count_index_sequence_upto [of "unat N" N])

subsection \<open>Calls through a trampoline\<close>

text \<open>The closure's own exception specification already decides whether an exception leaves
  the closure, so the identical specification of \<open>invoke<I>\<close> changes nothing.\<close>

lemma noexcept_fn_call_closure:
  "noexcept_fn (b_noexcept (call_operator L)) (fst (call_closure L objs p a))
     = fst (call_closure L objs p a)"
  by (auto simp: call_closure_def noexcept_fn_def split: option.splits sum.splits prod.splits)

lemma invoke_noexcept_eq: "invoke_noexcept L = b_noexcept (call_operator L)"
  by (simp add: invoke_noexcept_def IsNoExcept_def)

lemma invoke_occupied:
  assumes "load data I = Inr (Some p)"
  shows "invoke ndebug L data objs I a = call_closure L objs p a"
proof -
  obtain out objs' where c: "call_closure L objs p a = (out, objs')"
    by (cases "call_closure L objs p a")
  with noexcept_fn_call_closure [of L objs p a]
  have "noexcept_fn (b_noexcept (call_operator L)) out = out" by simp
  with assms c show ?thesis
    by (simp add: invoke_def invoke_noexcept_eq)
qed

lemma call_pointer_occupied:
  assumes "load (ps (pool_of L N)) I = Inr (Some p)"
  shows "call_pointer ndebug N L ps objs (Some (invoke_addr I)) a = call_closure L objs p a"
  using invoke_occupied [OF assms] by (simp add: call_pointer_def)

lemma call_closure_Returned:
  assumes "objs p = Some c" and "body L c x = (Inr r, c)"
  shows "call_closure L objs p x = (Returned r, objs)"
  using assms by (simp add: call_closure_def fun_upd_idem)

lemma call_Affine:
  assumes "objs p = Some (v, sg)"
  shows "call_closure Affine objs p x = (Returned (v + sg * x), objs)"
  using assms by (simp add: call_closure_def Affine_def fun_upd_idem)

subsection \<open>The invariant holds in every reachable state\<close>

lemma pool_inv_start: "pool_inv N \<lparr>tbl = data_init N, handles = []\<rparr>"
  by (simp add: pool_inv_def data_init_def)

lemma pool_inv_construct:
  assumes inv: "pool_inv N s"
    and ctor: "thunk_ctor ndebug lck N (tbl s) arg = Inr (t, d)"
  shows "pool_inv N \<lparr>tbl = d, handles = (t, arg) # handles s\<rparr>"
proof -
  from inv have len: "length (tbl s) = unat N" by (simp add: pool_inv_def)
  from thunk_ctor_Inr [OF len ctor]
  have lt: "unat (index t) < unat N"
    and emp: "tbl s ! unat (index t) = None"
    and d: "d = (tbl s)[unat (index t) := Some arg]"
    by simp_all
  have other: "index (fst h) \<noteq> index t" if "h \<in> set (handles s)" for h
    using inv that emp by (auto simp: pool_inv_def)
  have fresh: "index t \<notin> (\<lambda>h. index (fst h)) ` set (handles s)"
  proof
    assume "index t \<in> (\<lambda>h. index (fst h)) ` set (handles s)"
    then obtain h where "h \<in> set (handles s)" and "index (fst h) = index t" by force
    with other show False by blast
  qed
  have keep: "d ! unat (index (fst h)) = Some (snd h)" if "h \<in> set (handles s)" for h
  proof -
    from other [OF that] have "unat (index (fst h)) \<noteq> unat (index t)"
      by (simp add: word_unat_eq_iff)
    then show ?thesis using inv that d by (auto simp: pool_inv_def)
  qed
  show ?thesis
    using inv len lt d fresh keep by (auto simp: pool_inv_def)
qed

lemma pool_inv_destroy:
  assumes inv: "pool_inv N s"
    and live: "(t, arg) \<in> set (handles s)"
    and dtor: "thunk_dtor ndebug lck (tbl s) t = Inr d"
  shows "pool_inv N \<lparr>tbl = d, handles = remove1 (t, arg) (handles s)\<rparr>"
proof -
  from thunk_dtor_Inr [OF dtor]
  have d: "d = (tbl s)[unat (index t) := None]" by simp
  from inv have dist: "distinct (map (\<lambda>h. index (fst h)) (handles s))"
    by (simp add: pool_inv_def)
  then have dh: "distinct (handles s)" by (simp add: distinct_map)
  have inj: "inj_on (\<lambda>h. index (fst h)) (set (handles s))"
    using dist by (simp add: distinct_map)
  have other: "index (fst h) \<noteq> index t" if "h \<in> set (remove1 (t, arg) (handles s))" for h
  proof
    assume eq: "index (fst h) = index t"
    from that dh have "h \<in> set (handles s)" and ne: "h \<noteq> (t, arg)" by auto
    with inj_onD [OF inj, of h "(t, arg)"] live eq have "h = (t, arg)" by simp
    with ne show False by simp
  qed
  have keep: "d ! unat (index (fst h)) = Some (snd h)"
    if "h \<in> set (remove1 (t, arg) (handles s))" for h
  proof -
    from other [OF that] have "unat (index (fst h)) \<noteq> unat (index t)"
      by (simp add: word_unat_eq_iff)
    moreover from that have "h \<in> set (handles s)"
      by (rule subsetD [OF set_remove1_subset])
    ultimately show ?thesis using inv d by (auto simp: pool_inv_def)
  qed
  have "distinct (map (\<lambda>h. index (fst h)) (remove1 (t, arg) (handles s)))"
    using dist by (simp add: distinct_map distinct_remove1 inj_on_def dh)
  then show ?thesis
    using inv d keep by (auto simp: pool_inv_def dest: notin_set_remove1)
qed

lemma reachable_inv: "reachable ndebug N s \<Longrightarrow> pool_inv N s"
proof (induction rule: reachable.induct)
  case start
  show ?case by (rule pool_inv_start)
next
  case (construct s lck arg t d)
  then show ?case by (auto intro: pool_inv_construct)
next
  case (destroy s t arg lck d)
  then show ?case by (auto intro: pool_inv_destroy)
qed

lemma reachable_live:
  assumes "reachable ndebug N s" and "(t, p) \<in> set (handles s)"
  shows "length (tbl s) = unat N \<and> unat (index t) < unat N
         \<and> tbl s ! unat (index t) = Some p"
  using reachable_inv [OF assms(1)] assms(2) by (force simp: pool_inv_def)

lemma reachable_load:
  assumes "reachable ndebug N s" and "(t, p) \<in> set (handles s)"
  shows "load (tbl s) (index t) = Inr (Some p)"
  using reachable_live [OF assms] by (simp add: load_def)

lemma filter_distinct_map_le_1:
  "distinct (map f xs) \<Longrightarrow> length (filter (\<lambda>x. f x = i) xs) \<le> 1"
proof (induction xs)
  case Nil
  show ?case by simp
next
  case (Cons x xs)
  show ?case
  proof (cases "f x = i")
    case True
    from Cons.prems have nin: "f x \<notin> f ` set xs" by simp
    have "\<forall>y \<in> set xs. f y \<noteq> i"
    proof
      fix y
      assume "y \<in> set xs"
      then have "f y \<in> f ` set xs" by (rule imageI)
      with nin True show "f y \<noteq> i" by metis
    qed
    then have "filter (\<lambda>x. f x = i) xs = []" by (simp add: filter_empty_conv)
    with True show ?thesis by simp
  next
    case False
    with Cons show ?thesis by simp
  qed
qed

subsection \<open>A pool of two slots\<close>

lemma data_init_2: "data_init 2 = [None, None]"
proof -
  have "data_init 2 = replicate 2 None" by (simp add: data_init_def)
  also have "replicate (2 :: nat) (None :: addr option) = [None, None]"
    by (simp add: numeral_2_eq_2)
  finally show ?thesis .
qed

lemma pools_init_2: "pools_init (pool_of L 2) = [None, None]"
  by (simp add: pools_init_def pool_of_def data_init_2)

lemma load_2: "load [x, y] 0 = Inr x" "load [x, y] 1 = Inr y"
  by (simp_all add: load_def)

lemma acquire_loop_2:
  "acquire_loop 2 [x, y] arg 0 =
     (if x = None then Some (Inr (0, [Some arg, y]))
      else if y = None then Some (Inr (1, [x, Some arg]))
      else None)"
  by (simp add: acquire_loop.simps load_def store_def)

lemma thunk_ctor_2:
  "thunk_ctor ndebug Locked 2 [x, y] arg =
     (if x = None then Inr (\<lparr>index = 0\<rparr>, [Some arg, y])
      else if y = None then Inr (\<lparr>index = 1\<rparr>, [x, Some arg])
      else Inl (assert_abort ndebug ''thunk pool exhausted''))"
  by (simp add: thunk_ctor_def acquire_def acquire_loop_2 store_def)

lemma get_2:
  "get 2 \<lparr>index = 0\<rparr> = Some (invoke_addr 0)"
  "get 2 \<lparr>index = 1\<rparr> = Some (invoke_addr 1)"
  by (simp_all add: get_in_range)

text \<open>Two states of a pool of capacity 2: after one construction and after two.\<close>

lemma reachable_one:
  "reachable ndebug 2 \<lparr>tbl = [Some 10, None], handles = [(\<lparr>index = 0\<rparr>, 10)]\<rparr>"
  using reachable.construct
    [OF reachable.start, of ndebug Locked 2 10 "\<lparr>index = 0\<rparr>" "[Some 10, None]"]
  by (simp add: data_init_2 thunk_ctor_2)

lemma reachable_two:
  "reachable ndebug 2
     \<lparr>tbl = [Some 10, Some 20], handles = [(\<lparr>index = 1\<rparr>, 20), (\<lparr>index = 0\<rparr>, 10)]\<rparr>"
  using reachable.construct
    [OF reachable_one, of ndebug Locked 20 "\<lparr>index = 1\<rparr>" "[Some 10, Some 20]"]
  by (simp add: thunk_ctor_2)

section \<open>The claims\<close>

subsection \<open>The slot pool\<close>

text \<open>
  Claim C3.  In a pool with at least one empty slot, \<open>acquire\<close>, having locked the mutex,
  returns the smallest index \<open>i\<close> such that the slots below \<open>i\<close> are all occupied and slot
  \<open>i\<close> is empty, and the table it leaves differs from the old one only in holding the address
  of the closure at entry \<open>i\<close>.
\<close>

theorem acquire_first_empty_slot:
  assumes "length data = unat N" and "\<exists>j < unat N. data ! j = None"
  shows "\<exists>i. acquire ndebug Locked N data arg = Inr (i, data[unat i := Some arg])
           \<and> unat i < unat N \<and> data ! unat i = None \<and> (\<forall>j < unat i. data ! j \<noteq> None)"
  using assms by (rule acquire_found)

theorem acquire_first_empty_slot_witness:
  "length [Some 7, None, None :: addr option] = unat (3 :: size_t)
   \<and> (\<exists>j < unat (3 :: size_t). [Some 7, None, None :: addr option] ! j = None)
   \<and> (\<exists>i. acquire False Locked 3 [Some 7, None, None] 9
             = Inr (i, [Some 7, None, None][unat i := Some 9])
           \<and> unat i < unat (3 :: size_t) \<and> [Some 7, None, None :: addr option] ! unat i = None
           \<and> (\<forall>j < unat i. [Some 7, None, None :: addr option] ! j \<noteq> None))
   \<and> acquire False Locked 3 [Some 7, None, None] 9 = Inr (1, [Some 7, Some 9, None])"
proof -
  have h1: "length [Some 7, None, None :: addr option] = unat (3 :: size_t)" by simp
  have h2: "\<exists>j < unat (3 :: size_t). [Some 7, None, None :: addr option] ! j = None"
    by (rule exI [of _ 1]) simp
  have run: "acquire False Locked 3 [Some 7, None, None] 9 = Inr (1, [Some 7, Some 9, None])"
    by code_simp
  from acquire_first_empty_slot [OF h1 h2, of False 9] h1 h2 run show ?thesis
    by blast
qed

text \<open>
  Claim C4.  In a pool whose \<open>N\<close> slots are all occupied, \<open>acquire\<close> does not return: having
  locked the mutex it ends the process on the "thunk pool exhausted" path (the failed assertion
  of a debug build, \<open>std::abort\<close> with \<open>NDEBUG\<close>), and whatever the lock does, the result is
  the end of the process and never an index.
\<close>

theorem acquire_pool_exhausted:
  assumes "length data = unat N" and "\<forall>j < unat N. data ! j \<noteq> None"
  shows "acquire ndebug Locked N data arg = Inl (assert_abort ndebug ''thunk pool exhausted'')
         \<and> (\<exists>f. acquire ndebug lck N data arg = Inl f \<and> process_terminated f)"
  using acquire_loop_exhausted [OF assms, of arg]
  by (cases lck) (auto simp: acquire_def assert_abort_def)

theorem acquire_pool_exhausted_witness:
  "length [Some 7, Some 8 :: addr option] = unat (2 :: size_t)
   \<and> acquire False Locked 2 [Some 7, Some 8] 9 = Inl (AssertionFailure ''thunk pool exhausted'')
   \<and> acquire True Locked 2 [Some 7, Some 8] 9 = Inl Abort"
proof -
  have h1: "length [Some 7, Some 8 :: addr option] = unat (2 :: size_t)" by simp
  have "\<forall>j < (2 :: nat). [Some 7, Some 8 :: addr option] ! j \<noteq> None"
    by (simp add: less_2_cases_iff)
  then have h2: "\<forall>j < unat (2 :: size_t). [Some 7, Some 8 :: addr option] ! j \<noteq> None"
    by simp
  from acquire_pool_exhausted [OF h1 h2, of False 9 Locked]
       acquire_pool_exhausted [OF h1 h2, of True 9 Locked] h1 h2
  show ?thesis by (simp add: assert_abort_def)
qed

text \<open>
  Claim C8.  For every index \<open>i\<close> of the table, \<open>release(i)\<close>, having locked the mutex, sets
  entry \<open>i\<close> to empty and leaves every other entry as it was.
\<close>

theorem release_clears_entry:
  assumes "unat i < length data"
  shows "\<exists>d. release ndebug Locked data i = Inr d \<and> length d = length data
           \<and> d ! unat i = None \<and> (\<forall>j < length data. j \<noteq> unat i \<longrightarrow> d ! j = data ! j)"
  using assms by (simp add: release_def store_def)

theorem release_clears_entry_witness:
  "unat (1 :: size_t) < length [Some 7, Some 8, Some (9 :: addr)]
   \<and> (\<exists>d. release False Locked [Some 7, Some 8, Some 9] 1 = Inr d
          \<and> length d = length [Some 7, Some 8, Some (9 :: addr)]
          \<and> d ! unat (1 :: size_t) = None
          \<and> (\<forall>j < length [Some 7, Some 8, Some (9 :: addr)].
                j \<noteq> unat (1 :: size_t) \<longrightarrow> d ! j = [Some 7, Some 8, Some 9] ! j))
   \<and> release False Locked [Some 7, Some 8, Some 9] 1 = Inr [Some 7, None, Some 9]"
proof -
  have h: "unat (1 :: size_t) < length [Some 7, Some 8, Some (9 :: addr)]" by simp
  have run: "release False Locked [Some 7, Some 8, Some 9] 1 = Inr [Some 7, None, Some 9]"
    by (simp add: release_def store_def)
  from release_clears_entry [OF h, of False] h run show ?thesis
    by blast
qed

subsection \<open>The handle\<close>

text \<open>
  Claim C7.  \<open>get\<close> reads nothing but the capacity and the handle's constant \<open>index\<close>, and
  it has no table among its results: it cannot change a state.  For every live handle its
  value, the same at every call, is the address of the one function \<open>invoke<I>\<close> whose
  index \<open>I\<close> is the handle's index.
\<close>

theorem get_returns_own_trampoline:
  assumes "reachable ndebug N s" and "(t, p) \<in> set (handles s)"
  shows "get N t = Some (invoke_addr (index t))
         \<and> (\<forall>I. get N t = Some (invoke_addr I) \<longleftrightarrow> I = index t)"
  using reachable_live [OF assms] by (auto simp add: get_in_range)

theorem get_returns_own_trampoline_witness:
  "reachable False 2 \<lparr>tbl = [Some 10, None], handles = [(\<lparr>index = 0\<rparr>, 10)]\<rparr>
   \<and> get 2 \<lparr>index = 0\<rparr> = Some (invoke_addr 0)
   \<and> get 2 \<lparr>index = 0\<rparr> \<noteq> Some (invoke_addr 1)"
proof -
  let ?s = "\<lparr>tbl = [Some 10, None], handles = [(\<lparr>index = 0\<rparr>, 10)]\<rparr>"
  have r: "reachable False 2 ?s" by (rule reachable_one)
  have l: "(\<lparr>index = 0\<rparr>, 10) \<in> set (handles ?s)" by simp
  from get_returns_own_trampoline [OF r l] r show ?thesis
    by simp
qed

text \<open>
  Claim C10.  The index of a live handle is less than \<open>N\<close>; exactly one member of the
  index sequence equals it, so the fold of \<open>get\<close> assigns the pointer exactly once and
  \<open>get\<close> returns an initialised pointer; and as long as the handle lives, beginning with the
  state the constructor leaves, the slot at its index holds the address of the wrapped closure,
  so the assertion of \<open>invoke\<close> holds and the call reaches the closure.
\<close>

theorem live_handle_is_dispatchable:
  assumes "reachable ndebug N s" and "(t, p) \<in> set (handles s)"
  shows "index t < N
         \<and> count_list (make_index_sequence N) (index t) = 1
         \<and> get N t = Some (invoke_addr (index t))
         \<and> load (tbl s) (index t) = Inr (Some p)
         \<and> invoke ndebug L (tbl s) objs (index t) a = call_closure L objs p a"
  using reachable_live [OF assms] reachable_load [OF assms]
    invoke_occupied [OF reachable_load [OF assms], of ndebug L objs a]
  by (simp add: get_in_range count_index_sequence word_less_nat_alt)

theorem live_handle_is_dispatchable_witness:
  "reachable True 2 \<lparr>tbl = [Some 10, None], handles = [(\<lparr>index = 0\<rparr>, 10)]\<rparr>
   \<and> (0 :: size_t) < 2
   \<and> count_list (make_index_sequence 2) 0 = 1
   \<and> get 2 \<lparr>index = 0\<rparr> = Some (invoke_addr 0)
   \<and> load [Some 10, None] 0 = Inr (Some 10)
   \<and> invoke True Affine [Some 10, None] [10 \<mapsto> (3, 1)] 0 4 = (Returned 7, [10 \<mapsto> (3, 1)])"
proof -
  let ?s = "\<lparr>tbl = [Some 10, None], handles = [(\<lparr>index = 0\<rparr>, 10)]\<rparr>"
  let ?objs = "[10 \<mapsto> (3 :: int, 1 :: int)]"
  have r: "reachable True 2 ?s" by (rule reachable_one)
  have l: "(\<lparr>index = 0\<rparr>, 10) \<in> set (handles ?s)" by simp
  have c: "call_closure Affine ?objs 10 4 = (Returned 7, ?objs)"
    by (simp add: call_Affine [of ?objs 10 3 1])
  from live_handle_is_dispatchable [OF r l, of Affine ?objs 4] r c show ?thesis
    by simp
qed

text \<open>
  Claim C1.  For every live handle, made from the closure at address \<open>p\<close>, and every
  argument, calling the pointer that \<open>get\<close> returns gives what the direct call of the closure
  at \<open>p\<close> gives: the same returned value or exception and the same closure state afterwards.
\<close>

theorem pointer_call_is_closure_call:
  assumes "reachable ndebug N s" and "(t, p) \<in> set (handles s)"
  shows "\<exists>fp. get N t = Some fp
           \<and> call_func_ptr ndebug L (tbl s) objs fp a = call_closure L objs p a"
  using reachable_live [OF assms] invoke_occupied [OF reachable_load [OF assms]]
  by (simp add: get_in_range)

theorem pointer_call_is_closure_call_witness:
  "reachable False 2
     \<lparr>tbl = [Some 10, Some 20], handles = [(\<lparr>index = 1\<rparr>, 20), (\<lparr>index = 0\<rparr>, 10)]\<rparr>
   \<and> (\<exists>fp. get 2 \<lparr>index = 1\<rparr> = Some fp
          \<and> call_func_ptr False Affine [Some 10, Some 20] [10 \<mapsto> (3, 1), 20 \<mapsto> (10, - 1)] fp 4
              = (Returned 6, [10 \<mapsto> (3, 1), 20 \<mapsto> (10, - 1)]))"
proof -
  let ?s = "\<lparr>tbl = [Some 10, Some 20], handles = [(\<lparr>index = 1\<rparr>, 20), (\<lparr>index = 0\<rparr>, 10)]\<rparr>"
  let ?objs = "[10 \<mapsto> (3, 1), 20 \<mapsto> (10 :: int, - 1 :: int)]"
  have r: "reachable False 2 ?s" by (rule reachable_two)
  have l: "(\<lparr>index = 1\<rparr>, 20) \<in> set (handles ?s)" by simp
  have c: "call_closure Affine ?objs 20 4 = (Returned 6, ?objs)"
    by (simp add: call_Affine [of ?objs 20 10 "- 1"])
  from pointer_call_is_closure_call [OF r l, of Affine ?objs 4] r c show ?thesis
    by simp
qed

text \<open>
  Claim C9.  When the closure in slot \<open>I\<close> throws and its call operator is not declared
  \<open>noexcept\<close>, the call of \<open>invoke<I>\<close> ends with the same exception, and with the same
  closure state, as the direct call.  The exception specification of \<open>invoke<I>\<close>, and that of
  the function pointer type, are the one of the closure's call operator.
\<close>

theorem closure_exception_propagates:
  assumes "load data I = Inr (Some p)" and "objs p = Some c" and "body L c a = (Inl e, c')"
  shows "invoke_noexcept L = b_noexcept (call_operator L)
         \<and> fp_noexcept (FuncPtr L) = b_noexcept (call_operator L)
         \<and> (\<not> b_noexcept (call_operator L) \<longrightarrow>
              call_closure L objs p a = (Thrown e, objs(p \<mapsto> c'))
              \<and> invoke ndebug L data objs I a = (Thrown e, objs(p \<mapsto> c')))"
  using assms invoke_occupied [OF assms(1), of ndebug L objs a]
  by (simp add: invoke_noexcept_eq FuncPtr_def ToFuncPtr_def call_closure_def noexcept_fn_def)

theorem closure_exception_propagates_witness:
  "\<not> b_noexcept (call_operator (throwing_lambda False))
   \<and> \<not> invoke_noexcept (throwing_lambda False)
   \<and> invoke_noexcept (throwing_lambda True)
   \<and> call_closure (throwing_lambda False) [10 \<mapsto> 3] 10 4 = (Thrown ''error'', [10 \<mapsto> 4])
   \<and> invoke False (throwing_lambda False) [Some 10] [10 \<mapsto> 3] 0 4
       = (Thrown ''error'', [10 \<mapsto> 4])"
proof -
  have h1: "load [Some 10] 0 = Inr (Some 10)" by (simp add: load_def)
  have h2: "[10 \<mapsto> 3 :: int] (10 :: addr) = Some 3" by simp
  have h3: "body (throwing_lambda b) 3 4 = (Inl ''error'', 4)" for b
    by (simp add: throwing_lambda_def)
  have nb: "\<not> b_noexcept (call_operator (throwing_lambda False))"
    and yb: "b_noexcept (call_operator (throwing_lambda True))"
    by (simp_all add: throwing_lambda_def)
  from closure_exception_propagates
         [where data = "[Some 10]" and I = 0 and p = 10 and objs = "[10 \<mapsto> 3]" and c = 3
            and L = "throwing_lambda False" and a = 4 and e = "''error''" and c' = 4
            and ndebug = False, OF h1 h2 h3]
       closure_exception_propagates
         [where data = "[Some 10]" and I = 0 and p = 10 and objs = "[10 \<mapsto> 3]" and c = 3
            and L = "throwing_lambda True" and a = 4 and e = "''error''" and c' = 4
            and ndebug = False, OF h1 h2 h3] nb yb
  show ?thesis by simp
qed

subsection \<open>Handles over time\<close>

text \<open>
  Claim C5.  In every state reached by constructions that did not end the process and by
  destructions, the live handles of the pool have pairwise different indices, and no index
  belongs to more than one live handle.
\<close>

theorem live_handles_distinct_slots:
  assumes "reachable ndebug N s"
  shows "distinct (map (\<lambda>h. index (fst h)) (handles s))
         \<and> (\<forall>i. length (filter (\<lambda>h. index (fst h) = i) (handles s)) \<le> 1)"
proof -
  from reachable_inv [OF assms]
  have d: "distinct (map (\<lambda>h. index (fst h)) (handles s))"
    by (simp add: pool_inv_def)
  from d filter_distinct_map_le_1 [OF d] show ?thesis by blast
qed

theorem live_handles_distinct_slots_witness:
  "reachable False 2
     \<lparr>tbl = [Some 10, Some 20], handles = [(\<lparr>index = 1\<rparr>, 20), (\<lparr>index = 0\<rparr>, 10)]\<rparr>
   \<and> distinct (map (\<lambda>h. index (fst h)) [(\<lparr>index = 1\<rparr>, 20 :: addr), (\<lparr>index = 0\<rparr>, 10)])
   \<and> (\<forall>i. length (filter (\<lambda>h. index (fst h) = i)
                  [(\<lparr>index = 1\<rparr>, 20 :: addr), (\<lparr>index = 0\<rparr>, 10)]) \<le> 1)"
proof -
  let ?s = "\<lparr>tbl = [Some 10, Some 20], handles = [(\<lparr>index = 1\<rparr>, 20), (\<lparr>index = 0\<rparr>, 10)]\<rparr>"
  have r: "reachable False 2 ?s" by (rule reachable_two)
  from live_handles_distinct_slots [OF r] r show ?thesis
    by simp
qed

text \<open>
  Claim C6.  The destructor is the call \<open>release(index)\<close> and nothing else.  Destroying a live
  handle with index \<open>i\<close>, the mutex locked, empties slot \<open>i\<close>.
  The next \<open>acquire\<close> then succeeds with an index not above \<open>i\<close>, and with \<open>i\<close> itself when
  the slots below \<open>i\<close> are occupied.  Every handle that is still alive has another index, and
  its slot holds the address of its own closure before and after that \<open>acquire\<close>.
\<close>

theorem destroyed_slot_is_reusable:
  assumes r: "reachable ndebug N s" and live: "(t, p) \<in> set (handles s)"
  shows "thunk_dtor ndebug lck (tbl s) t = release ndebug lck (tbl s) (index t)
    \<and> (\<exists>d. thunk_dtor ndebug Locked (tbl s) t = Inr d \<and> d ! unat (index t) = None
      \<and> (\<exists>j d'. acquire ndebug Locked N d arg = Inr (j, d') \<and> j \<le> index t
           \<and> ((\<forall>k < unat (index t). d ! k \<noteq> None)
                 \<longrightarrow> j = index t \<and> d' ! unat (index t) = Some arg)
           \<and> (\<forall>h \<in> set (remove1 (t, p) (handles s)).
                 index (fst h) \<noteq> index t
                 \<and> d ! unat (index (fst h)) = Some (snd h)
                 \<and> d' ! unat (index (fst h)) = Some (snd h))))"
proof -
  define d where "d = (tbl s)[unat (index t) := None]"
  from reachable_live [OF r live]
  have len: "length (tbl s) = unat N" and lt: "unat (index t) < unat N" by simp_all
  have dtor: "thunk_dtor ndebug Locked (tbl s) t = Inr d"
    using len lt by (simp add: thunk_dtor_def release_def store_def d_def)
  have lend: "length d = unat N" using len by (simp add: d_def)
  have emp: "d ! unat (index t) = None" using len lt by (simp add: d_def)
  have r': "reachable ndebug N \<lparr>tbl = d, handles = remove1 (t, p) (handles s)\<rparr>"
    using r live dtor by (rule reachable.destroy)
  have rest: "unat (index (fst h)) < unat N \<and> d ! unat (index (fst h)) = Some (snd h)"
    if "h \<in> set (remove1 (t, p) (handles s))" for h
    using reachable_inv [OF r'] that by (simp add: pool_inv_def)
  from lt emp have "\<exists>j < unat N. d ! j = None" by blast
  from acquire_found [OF lend this, of ndebug arg]
  obtain i where acq: "acquire ndebug Locked N d arg = Inr (i, d[unat i := Some arg])"
    and ilt: "unat i < unat N" and iemp: "d ! unat i = None"
    and least: "\<forall>j < unat i. d ! j \<noteq> None"
    by blast
  have ile: "unat i \<le> unat (index t)"
  proof (rule ccontr)
    assume "\<not> unat i \<le> unat (index t)"
    then have "unat (index t) < unat i" by simp
    with least emp show False by blast
  qed
  then have le: "i \<le> index t" by (simp add: word_le_nat_alt)
  have reuse: "i = index t \<and> d[unat i := Some arg] ! unat (index t) = Some arg"
    if full: "\<forall>k < unat (index t). d ! k \<noteq> None"
  proof -
    have "\<not> unat i < unat (index t)" using full iemp by blast
    with ile have "unat i = unat (index t)" by simp
    then show ?thesis using lt lend by (simp add: word_unat_eq_iff)
  qed
  have others: "index (fst h) \<noteq> index t
                 \<and> d ! unat (index (fst h)) = Some (snd h)
                 \<and> d[unat i := Some arg] ! unat (index (fst h)) = Some (snd h)"
    if h: "h \<in> set (remove1 (t, p) (handles s))" for h
  proof -
    from rest [OF h] have occ: "d ! unat (index (fst h)) = Some (snd h)" by simp
    with emp have "index (fst h) \<noteq> index t" by auto
    moreover from occ iemp have "unat i \<noteq> unat (index (fst h))" by auto
    ultimately show ?thesis using occ by simp
  qed
  have "\<exists>d. thunk_dtor ndebug Locked (tbl s) t = Inr d \<and> d ! unat (index t) = None
      \<and> (\<exists>j d'. acquire ndebug Locked N d arg = Inr (j, d') \<and> j \<le> index t
           \<and> ((\<forall>k < unat (index t). d ! k \<noteq> None)
                 \<longrightarrow> j = index t \<and> d' ! unat (index t) = Some arg)
           \<and> (\<forall>h \<in> set (remove1 (t, p) (handles s)).
                 index (fst h) \<noteq> index t
                 \<and> d ! unat (index (fst h)) = Some (snd h)
                 \<and> d' ! unat (index (fst h)) = Some (snd h)))"
    using dtor emp acq le reuse others by blast
  then show ?thesis by (simp add: thunk_dtor_def)
qed

theorem destroyed_slot_is_reusable_witness:
  "reachable False 2
     \<lparr>tbl = [Some 10, Some 20], handles = [(\<lparr>index = 1\<rparr>, 20), (\<lparr>index = 0\<rparr>, 10)]\<rparr>
   \<and> thunk_dtor False Locked [Some 10, Some 20] \<lparr>index = 0\<rparr> = Inr [None, Some 20]
   \<and> (\<exists>d'. acquire False Locked 2 [None, Some 20] 30 = Inr (0, d')
          \<and> d' ! 0 = Some 30 \<and> d' ! 1 = Some 20)"
proof -
  let ?s = "\<lparr>tbl = [Some 10, Some 20], handles = [(\<lparr>index = 1\<rparr>, 20), (\<lparr>index = 0\<rparr>, 10)]\<rparr>"
  have r: "reachable False 2 ?s" by (rule reachable_two)
  have l: "(\<lparr>index = 0\<rparr>, 10) \<in> set (handles ?s)" by simp
  have dv: "thunk_dtor False Locked [Some 10, Some 20] \<lparr>index = 0\<rparr> = Inr [None, Some 20]"
    by (simp add: thunk_dtor_def release_def store_def)
  from destroyed_slot_is_reusable [OF r l, of Locked 30] dv
  obtain j d' where acq: "acquire False Locked 2 [None, Some 20] 30 = Inr (j, d')"
    and le: "j \<le> 0" and reuse: "j = 0 \<and> d' ! 0 = Some 30" and keep: "d' ! 1 = Some 20"
    by auto
  then show ?thesis using r dv by auto
qed

subsection \<open>The scenario\<close>

text \<open>
  Claim C2, as stated, fails.  The table is a static member of \<open>thunk<LambdaType, N>\<close>, so
  closures share a pool when they have the same closure type, not when they have the same
  parameter types, return type and no-throw qualifier.  With three lambda expressions of one
  such shape, \<open>B\<close> gets slot 0 of a pool of its own, not slot 1 of the pool of \<open>A\<close>.
\<close>

theorem scenario_distinct_lambdas_counterexample:
  "FuncPtr lambda_A = FuncPtr lambda_B \<and> FuncPtr lambda_B = FuncPtr lambda_C
   \<and> scenario False (lambda_A, 10, 3) (lambda_B, 20, 10) (lambda_C, 30, 100)
       = Inr \<lparr>slot_A = 0, slot_B = 0, same_pool_AB = False,
              A_of_4 = Returned 7, B_of_4 = Returned 6,
              slot_C = 0, same_pool_AC = False,
              C_of_1 = Returned 101, B_of_4_again = Returned 6\<rparr>
   \<and> scenario False (lambda_A, 10, 3) (lambda_B, 20, 10) (lambda_C, 30, 100)
       \<noteq> Inr scenario_expected"
proof -
  have shape: "FuncPtr lambda_A = FuncPtr lambda_B \<and> FuncPtr lambda_B = FuncPtr lambda_C"
    by (simp add: FuncPtr_def ToFuncPtr_def lambda_A_def lambda_B_def lambda_C_def
        lambda_type_def)
  have run: "scenario False (lambda_A, 10, 3) (lambda_B, 20, 10) (lambda_C, 30, 100)
       = Inr \<lparr>slot_A = 0, slot_B = 0, same_pool_AB = False,
              A_of_4 = Returned 7, B_of_4 = Returned 6,
              slot_C = 0, same_pool_AC = False,
              C_of_1 = Returned 101, B_of_4_again = Returned 6\<rparr>"
    by code_simp
  from shape run show ?thesis
    by (simp add: scenario_expected_def)
qed

text \<open>
  Claim C2, amended.  When \<open>A\<close>, \<open>B\<close> and \<open>C\<close> are objects of one closure type, at different
  addresses, with \<open>A(4) = 7\<close>, \<open>B(4) = 6\<close> and \<open>C(1) = 101\<close>, the scenario runs as described:
  \<open>A\<close> gets slot 0 and \<open>B\<close> slot 1 of the same pool, the pointers give 7 and 6, after the
  destruction of \<open>A\<close>'s handle \<open>C\<close> gets slot 0 again, and the pointers of \<open>C\<close> and \<open>B\<close> give
  101 and 6.
\<close>

theorem scenario_one_closure_type:
  fixes L :: "('c, int, unit, int) LambdaType"
  assumes "distinct [pA, pB, pC]"
    and "body L a 4 = (Inr 7, a)" and "body L b 4 = (Inr 6, b)" and "body L c 1 = (Inr 101, c)"
  shows "scenario ndebug (L, pA, a) (L, pB, b) (L, pC, c) = Inr scenario_expected"
proof -
  let ?k = "pool_of L 2"
  let ?objs = "[pA \<mapsto> a, pB \<mapsto> b, pC \<mapsto> c]"
  have oA: "?objs pA = Some a" and oB: "?objs pB = Some b" and oC: "?objs pC = Some c"
    using assms(1) by auto
  have w1: "wrap ndebug Locked 2 L pools_init pA
              = Inr (\<lparr>index = 0\<rparr>, pools_init(?k := [Some pA, None]))"
    by (simp add: wrap_def pools_init_2 thunk_ctor_2)
  have w2: "wrap ndebug Locked 2 L (pools_init(?k := [Some pA, None])) pB
              = Inr (\<lparr>index = 1\<rparr>, pools_init(?k := [Some pA, Some pB]))"
    by (simp add: wrap_def thunk_ctor_2)
  have u: "unwrap ndebug Locked 2 L (pools_init(?k := [Some pA, Some pB])) \<lparr>index = 0\<rparr>
              = Inr (pools_init(?k := [None, Some pB]))"
    by (simp add: unwrap_def thunk_dtor_def release_def store_def)
  have w3: "wrap ndebug Locked 2 L (pools_init(?k := [None, Some pB])) pC
              = Inr (\<lparr>index = 0\<rparr>, pools_init(?k := [Some pC, Some pB]))"
    by (simp add: wrap_def thunk_ctor_2)
  have cA: "call_pointer ndebug 2 L (pools_init(?k := [Some pA, Some pB])) ?objs
              (Some (invoke_addr 0)) 4 = (Returned 7, ?objs)"
    by (simp add: call_pointer_occupied [of _ _ _ _ pA] load_2
        call_closure_Returned [of ?objs pA, OF oA assms(2)])
  have cB: "call_pointer ndebug 2 L (pools_init(?k := [Some pA, Some pB])) ?objs
              (Some (invoke_addr 1)) 4 = (Returned 6, ?objs)"
    by (simp add: call_pointer_occupied [of _ _ _ _ pB] load_2
        call_closure_Returned [of ?objs pB, OF oB assms(3)])
  have cC: "call_pointer ndebug 2 L (pools_init(?k := [Some pC, Some pB])) ?objs
              (Some (invoke_addr 0)) 1 = (Returned 101, ?objs)"
    by (simp add: call_pointer_occupied [of _ _ _ _ pC] load_2
        call_closure_Returned [of ?objs pC, OF oC assms(4)])
  have cB': "call_pointer ndebug 2 L (pools_init(?k := [Some pC, Some pB])) ?objs
              (Some (invoke_addr 1)) 4 = (Returned 6, ?objs)"
    by (simp add: call_pointer_occupied [of _ _ _ _ pB] load_2
        call_closure_Returned [of ?objs pB, OF oB assms(3)])
  show ?thesis
    by (simp add: scenario_def w1 w2 u w3 get_2 cA cB cC cB' scenario_expected_def)
qed

theorem scenario_one_closure_type_witness:
  "distinct [10 :: addr, 20, 30]
   \<and> body Affine (3, 1) 4 = (Inr 7, (3, 1))
   \<and> body Affine (10, - 1) 4 = (Inr 6, (10, - 1))
   \<and> body Affine (100, 1) 1 = (Inr 101, (100, 1))
   \<and> scenario False (Affine, 10, (3, 1)) (Affine, 20, (10, - 1)) (Affine, 30, (100, 1))
       = Inr scenario_expected"
proof -
  have d: "distinct [10 :: addr, 20, 30]" by simp
  have a: "body Affine (3, 1) 4 = (Inr 7, (3, 1))"
    and b: "body Affine (10, - 1) 4 = (Inr 6, (10, - 1))"
    and c: "body Affine (100, 1) 1 = (Inr 101, (100, 1))"
    by (simp_all add: Affine_def)
  from scenario_one_closure_type [OF d a b c, of False] d a b c show ?thesis
    by simp
qed

end
